theory Spec2Isabelle
  imports Main "HOL-Library.Sublist" "HOL-Library.Word"
begin

section \<open>Strings\<close>

text \<open>
  A JavaScript string is a sequence of UTF-16 code units. The regular expressions of
  \<open>reconstructResumeText\<close> carry no \<open>u\<close> flag, so they read the string one code unit
  at a time, and \<open>length\<close> counts code units.
\<close>

type_synonym jschar = "16 word"
type_synonym jsstring = "jschar list"

text \<open>An ASCII literal as a JavaScript string.\<close>

definition js :: "string \<Rightarrow> jsstring" where
  "js s = map of_char s"

text \<open>
  The class \<open>\s\<close> of a JavaScript regular expression, which is also the set of code
  units that \<open>String.prototype.trim\<close> removes: WhiteSpace and LineTerminator.
\<close>

definition isSpace :: "jschar \<Rightarrow> bool" where
  "isSpace c \<longleftrightarrow>
     c = 9 \<or> c = 10 \<or> c = 11 \<or> c = 12 \<or> c = 13 \<or> c = 32 \<or> c = 160 \<or> c = 5760 \<or>
     (8192 \<le> c \<and> c \<le> 8202) \<or> c = 8232 \<or> c = 8233 \<or> c = 8239 \<or> c = 8287 \<or>
     c = 12288 \<or> c = 65279"

text \<open>The class \<open>[ \t]\<close>.\<close>

definition isBlank :: "jschar \<Rightarrow> bool" where
  "isBlank c \<longleftrightarrow> c = 32 \<or> c = 9"

text \<open>The class \<open>\d\<close>.\<close>

definition isDigit :: "jschar \<Rightarrow> bool" where
  "isDigit c \<longleftrightarrow> 48 \<le> c \<and> c \<le> 57"

text \<open>The class \<open>[A-Za-z]\<close>.\<close>

definition isAlpha :: "jschar \<Rightarrow> bool" where
  "isAlpha c \<longleftrightarrow> (65 \<le> c \<and> c \<le> 90) \<or> (97 \<le> c \<and> c \<le> 122)"

text \<open>
  The class \<open>[-*\<bullet>...]\<close> of the bullet markers: hyphen, asterisk, U+2022, U+2023,
  U+25AA and U+25E6.
\<close>

definition isMarker :: "jschar \<Rightarrow> bool" where
  "isMarker c \<longleftrightarrow> c = 45 \<or> c = 42 \<or> c = 8226 \<or> c = 8227 \<or> c = 9642 \<or> c = 9702"

text \<open>\<open>s.trim()\<close>\<close>

definition trim :: "jsstring \<Rightarrow> jsstring" where
  "trim s = rev (dropWhile isSpace (rev (dropWhile isSpace s)))"

text \<open>\<open>l.replace(/\s+$/g, "")\<close>: the longest suffix of white space is removed.\<close>

definition trimEnd :: "jsstring \<Rightarrow> jsstring" where
  "trimEnd l = rev (dropWhile isSpace (rev l))"

text \<open>\<open>s.split("\n")\<close>: never empty, the empty string gives one empty line.\<close>

fun split :: "jsstring \<Rightarrow> jsstring list" where
  "split [] = [[]]"
| "split (c # cs) =
     (if c = 10 then [] # split cs
      else (case split cs of [] \<Rightarrow> [[c]] | l # ls \<Rightarrow> (c # l) # ls))"

text \<open>\<open>out.join("\n")\<close>\<close>

fun join :: "jsstring list \<Rightarrow> jsstring" where
  "join [] = []"
| "join [l] = l"
| "join (l # ls) = l @ 10 # join ls"

section \<open>The regular expressions\<close>

text \<open>
  \<open>normalized.replace(/([A-Za-z])-\n(?=[A-Za-z])/g, "$1")\<close>: scanning from the left, a
  letter followed by a hyphen, a line feed and a letter keeps the letter and loses the
  hyphen and the line feed; the letter of the lookahead is not consumed, so the scan goes
  on from it.
\<close>

fun dehyphenate :: "jsstring \<Rightarrow> jsstring" where
  "dehyphenate (c # h # n # d # rest) =
     (if isAlpha c \<and> h = 45 \<and> n = 10 \<and> isAlpha d then c # dehyphenate (d # rest)
      else c # dehyphenate (h # n # d # rest))"
| "dehyphenate (c # cs) = c # dehyphenate cs"
| "dehyphenate [] = []"

text \<open>\<open>.replace(/\r/g, "")\<close>\<close>

definition stripCR :: "jsstring \<Rightarrow> jsstring" where
  "stripCR s = filter (\<lambda>c. c \<noteq> 13) s"

text \<open>
  \<open>\s+\<close> right after a marker: at least one white space code unit follows.
\<close>

definition spaceNext :: "jsstring \<Rightarrow> bool" where
  "spaceNext r = (case r of [] \<Rightarrow> False | c # _ \<Rightarrow> isSpace c)"

text \<open>
  \<open>^\s*[-*\<bullet>...]\<close>: after the leading white space comes a marker. The markers are
  not white space, so only the longest run of white space can precede one.
\<close>

definition markerFirst :: "jsstring \<Rightarrow> bool" where
  "markerFirst s = (case dropWhile isSpace s of [] \<Rightarrow> False | c # _ \<Rightarrow> isMarker c)"

text \<open>
  \<open>bullets = /^(\s*[-*\<bullet>...]|(\s*\d+[\.)]))\s+/\<close>: leading white space, then either
  one marker, or digits and one of \<open>.\<close> and \<open>)\<close>; then white space.
\<close>

definition bullets :: "jsstring \<Rightarrow> bool" where
  "bullets s =
     (let t = dropWhile isSpace s in
        (case t of [] \<Rightarrow> False | c # r \<Rightarrow> isMarker c \<and> spaceNext r) \<or>
        (takeWhile isDigit t \<noteq> [] \<and>
         (case dropWhile isDigit t of [] \<Rightarrow> False
          | p # r \<Rightarrow> (p = 46 \<or> p = 41) \<and> spaceNext r)))"

text \<open>
  \<open>hardBreakAfter = /[:;]\s*$|^\s*[-*\<bullet>...]|\)\s*$/\<close>: the last code unit that is not
  white space is a colon, a semicolon or a closing parenthesis, or the line starts with a
  marker.
\<close>

definition hardBreakAfter :: "jsstring \<Rightarrow> bool" where
  "hardBreakAfter s =
     ((case dropWhile isSpace (rev s) of [] \<Rightarrow> False | c # _ \<Rightarrow> c = 58 \<or> c = 59) \<or>
      markerFirst s \<or>
      (case dropWhile isSpace (rev s) of [] \<Rightarrow> False | c # _ \<Rightarrow> c = 41))"

text \<open>The classes \<open>[.!?]\<close> and \<open>["')\]]\<close>.\<close>

definition isTerminal :: "jschar \<Rightarrow> bool" where
  "isTerminal c \<longleftrightarrow> c = 46 \<or> c = 33 \<or> c = 63"

definition isCloser :: "jschar \<Rightarrow> bool" where
  "isCloser c \<longleftrightarrow> c = 34 \<or> c = 39 \<or> c = 41 \<or> c = 93"

text \<open>
  \<open>sentenceEnd = /[.!?]["')\]]?\s*$/\<close>: once the trailing white space is set aside, the
  line ends in a terminal mark, or in a terminal mark and one closing quote or bracket.
\<close>

definition sentenceEnd :: "jsstring \<Rightarrow> bool" where
  "sentenceEnd s =
     (case dropWhile isSpace (rev s) of
        [] \<Rightarrow> False
      | c # r \<Rightarrow> isTerminal c \<or> (isCloser c \<and> (case r of [] \<Rightarrow> False | d # _ \<Rightarrow> isTerminal d)))"

text \<open>
  \<open>.replace(/[ \t]+\n/g, "\n")\<close>: a run of spaces and tabs that reaches a line feed is
  removed; the run is taken as long as it goes, and a line feed cannot be reached from a
  shorter one.
\<close>

function tidySpaces :: "jsstring \<Rightarrow> jsstring" where
  "tidySpaces [] = []"
| "tidySpaces (c # cs) =
     (if isBlank c \<and> (case dropWhile isBlank cs of [] \<Rightarrow> False | d # _ \<Rightarrow> d = 10)
      then 10 # tidySpaces (tl (dropWhile isBlank cs))
      else c # tidySpaces cs)"
  by pat_completeness auto
termination
  by (relation "measure length")
     (auto simp: less_Suc_eq_le intro: le_trans [OF diff_le_self length_dropWhile_le])

text \<open>
  \<open>.replace(/\n{3,}/g, "\n\n")\<close>: a run of three or more line feeds, taken as long as
  it goes, becomes two.
\<close>

function collapseNewlines :: "jsstring \<Rightarrow> jsstring" where
  "collapseNewlines [] = []"
| "collapseNewlines (c # cs) =
     (if 3 \<le> length (takeWhile (\<lambda>x. x = 10) (c # cs))
      then 10 # 10 # collapseNewlines (dropWhile (\<lambda>x. x = 10) (c # cs))
      else c # collapseNewlines cs)"
  by pat_completeness auto
termination
  by (relation "measure length")
     (auto simp: less_Suc_eq_le length_dropWhile_le split: if_splits)

section \<open>The reconstruction\<close>

text \<open>The two variables that the loop and \<open>flush\<close> share.\<close>

record rstate =
  out :: "jsstring list"
  buf :: jsstring

text \<open>
  \<open>const flush = () => { const s = buf.trim(); if (s) out.push(s); buf = ""; }\<close>
\<close>

definition flush :: "rstate \<Rightarrow> rstate" where
  "flush st =
     (let s = trim (buf st) in
      \<lparr>out = (if s \<noteq> [] then out st @ [s] else out st), buf = []\<rparr>)"

text \<open>\<open>buf += (buf ? " " : "") + cur\<close>\<close>

definition addLine :: "rstate \<Rightarrow> jsstring \<Rightarrow> rstate" where
  "addLine st cur = st\<lparr>buf := buf st @ (if buf st \<noteq> [] then [32] else []) @ cur\<rparr>"

text \<open>
  The condition \<open>joinSoftly\<close> of the loop, on the trimmed current and next lines.
\<close>

definition joinSoftly :: "jsstring \<Rightarrow> jsstring \<Rightarrow> bool" where
  "joinSoftly cur next \<longleftrightarrow>
     0 < length cur \<and> \<not> sentenceEnd cur \<and> \<not> hardBreakAfter cur \<and> next \<noteq> [] \<and> \<not> bullets next"

text \<open>
  The \<open>for\<close> loop over the lines that are still to be read. \<open>lines[i + 1] || ""\<close> is the
  next line, or the empty string after the last one.
\<close>

fun loop :: "jsstring list \<Rightarrow> rstate \<Rightarrow> rstate" where
  "loop [] st = st"
| "loop (l # ls) st =
     (let cur = trim l;
          next = trim (case ls of [] \<Rightarrow> [] | l' # _ \<Rightarrow> l')
      in if cur = [] then loop ls (flush st)
         else if bullets cur then loop ls (let st' = flush st in st'\<lparr>out := out st' @ [cur]\<rparr>)
         else if joinSoftly cur next then loop ls (addLine st cur)
         else loop ls (flush (addLine st cur)))"

text \<open>The lines that the loop and the last \<open>flush\<close> leave in \<open>out\<close>.\<close>

definition outLines :: "jsstring list \<Rightarrow> jsstring list" where
  "outLines ls = out (flush (loop ls \<lparr>out = [], buf = []\<rparr>))"

text \<open>The lines of a text: carriage returns removed, split, trailing white space cut.\<close>

definition splitLines :: "jsstring \<Rightarrow> jsstring list" where
  "splitLines s = map trimEnd (split (stripCR s))"

text \<open>
  \<open>reconstructResumeText\<close>. \<open>String.prototype.normalize("NFKC")\<close> belongs to the
  platform, not to the repository: it is the parameter \<open>nfkc\<close>.
\<close>

definition reconstructResumeText :: "(jsstring \<Rightarrow> jsstring) \<Rightarrow> jsstring \<Rightarrow> jsstring" where
  "reconstructResumeText nfkc input =
     (let normalized = nfkc input;
          dehyphenated = dehyphenate normalized;
          lines = splitLines dehyphenated
      in trim (collapseNewlines (tidySpaces (join (outLines lines)))))"

section \<open>Invariants of the loop\<close>

text \<open>
  A line of the output: not empty, no white space at either end, no line feed inside.
\<close>

definition tidyLine :: "jsstring \<Rightarrow> bool" where
  "tidyLine e \<longleftrightarrow> e \<noteq> [] \<and> \<not> isSpace (hd e) \<and> \<not> isSpace (last e) \<and> 10 \<notin> set e"

text \<open>The invariant of the loop: the lines pushed so far are tidy, the buffer holds no line feed.\<close>

definition tidyState :: "rstate \<Rightarrow> bool" where
  "tidyState st \<longleftrightarrow> list_all tidyLine (out st) \<and> 10 \<notin> set (buf st)"

section \<open>The handler\<close>

text \<open>A thrown value, read by the handler as \<open>e?.message\<close>.\<close>

datatype jsexn = Thrown "jsstring option"

text \<open>What \<open>res.json()\<close> can give; only an object has a property \<open>text\<close>.\<close>

datatype json = JNull | JString jsstring | JObject "(jsstring \<times> json) list" | JOther

text \<open>
  An uploaded \<open>File\<close>: its name, its type and what \<open>file.text()\<close> settles to.
\<close>

record jsfile =
  name :: jsstring
  ftype :: jsstring
  ftext :: "jsexn + jsstring"

text \<open>\<open>form.get("file")\<close>: nothing, a string or a \<open>File\<close>.\<close>

datatype formValue = Absent | Field jsstring | Upload jsfile

text \<open>
  The response of the upstream parser: \<open>res.ok\<close>, \<open>res.status\<close>, and what
  \<open>res.text()\<close> and \<open>res.json()\<close> settle to.
\<close>

record upstreamResponse =
  ok :: bool
  status :: nat
  resText :: "jsexn + jsstring"
  resJson :: "jsexn + json"

text \<open>
  What the handler reads from outside: the two environment variables, the form of the
  request (\<open>req.formData()\<close> can reject) and the outcome of \<open>fetch\<close> for a URL, a file
  and the name it is sent under.
\<close>

record request =
  BACKEND_URL :: "jsstring option"
  NEXT_PUBLIC_BACKEND_URL :: "jsstring option"
  formData :: "jsexn + formValue"
  fetch :: "jsstring \<Rightarrow> jsfile \<Rightarrow> jsstring \<Rightarrow> jsexn + upstreamResponse"

text \<open>The JSON bodies that the handler sends, and the response with its status.\<close>

datatype body =
    Parsed jsstring nat
  | MissingFile
  | UpstreamFailed nat jsstring
  | NotConfigured
  | Caught jsstring

record response =
  code :: nat
  payload :: body

text \<open>\<open>a || b\<close> on strings that may be undefined: the first one that is not empty.\<close>

definition orElse :: "jsstring option \<Rightarrow> jsstring \<Rightarrow> jsstring" where
  "orElse a b = (case a of None \<Rightarrow> b | Some s \<Rightarrow> if s = [] then b else s)"

text \<open>\<open>.replace(/\/$/, "")\<close>: one slash at the very end is removed.\<close>

definition stripSlash :: "jsstring \<Rightarrow> jsstring" where
  "stripSlash s = (if s \<noteq> [] \<and> last s = 47 then butlast s else s)"

text \<open>\<open>s.startsWith(p)\<close>\<close>

definition startsWith :: "jsstring \<Rightarrow> jsstring \<Rightarrow> bool" where
  "startsWith s p = (take (length p) s = p)"

text \<open>\<open>typeof data?.text === "string" ? data.text : ""\<close>\<close>

definition textOf :: "json \<Rightarrow> jsstring" where
  "textOf data =
     (case data of
        JObject props \<Rightarrow> (case map_of props (js ''text'') of Some (JString t) \<Rightarrow> t | _ \<Rightarrow> [])
      | _ \<Rightarrow> [])"

text \<open>The \<open>catch\<close> clause: status 500 with \<open>e?.message || "Unknown error"\<close>.\<close>

definition caught :: "jsexn \<Rightarrow> response" where
  "caught e =
     (case e of Thrown m \<Rightarrow> \<lparr>code = 500, payload = Caught (orElse m (js ''Unknown error''))\<rparr>)"

text \<open>
  \<open>POST\<close>. Each \<open>await\<close> that can reject is a sum, \<open>Inl\<close> the thrown value, which the
  \<open>catch\<close> clause turns into a response. \<open>String.prototype.toLowerCase\<close> and
  \<open>normalize\<close> belong to the platform and are parameters.
\<close>

definition POST :: "(jsstring \<Rightarrow> jsstring) \<Rightarrow> (jsstring \<Rightarrow> jsstring) \<Rightarrow> request \<Rightarrow> response" where
  "POST nfkc toLowerCase req =
     (let upstream = stripSlash (orElse (BACKEND_URL req) (orElse (NEXT_PUBLIC_BACKEND_URL req) []))
      in case formData req of
           Inl e \<Rightarrow> caught e
         | Inr (Upload file) \<Rightarrow>
             if upstream \<noteq> [] then
               (case fetch req (upstream @ js ''/parse/resume'') file (orElse (Some (name file)) (js ''resume'')) of
                  Inl e \<Rightarrow> caught e
                | Inr res \<Rightarrow>
                    if \<not> ok res then
                      \<lparr>code = 502,
                       payload = UpstreamFailed (status res)
                                   (case resText res of Inl _ \<Rightarrow> [] | Inr text \<Rightarrow> text)\<rparr>
                    else
                      (case resJson res of
                         Inl e \<Rightarrow> caught e
                       | Inr data \<Rightarrow>
                           (let text = textOf data;
                                clean = reconstructResumeText nfkc text
                            in \<lparr>code = 200, payload = Parsed clean (length clean)\<rparr>)))
             else
               (let mime = toLowerCase (orElse (Some (ftype file)) [])
                in if startsWith mime (js ''text/'') \<or> mime = js ''application/json'' then
                     (case ftext file of
                        Inl e \<Rightarrow> caught e
                      | Inr raw \<Rightarrow>
                          (let clean = reconstructResumeText nfkc raw
                           in \<lparr>code = 200, payload = Parsed clean (length clean)\<rparr>))
                   else \<lparr>code = 501, payload = NotConfigured\<rparr>)
         | Inr _ \<Rightarrow> \<lparr>code = 400, payload = MissingFile\<rparr>)"

section \<open>The join rule in the words of the specification\<close>

text \<open>
  The conditions of the specification on a trimmed line, in its words: the line ends in
  \<open>.\<close>, \<open>!\<close> or \<open>?\<close>, optionally followed by a closing quote or bracket.
\<close>

definition spec_endsSentence :: "jsstring \<Rightarrow> bool" where
  "spec_endsSentence cur \<longleftrightarrow>
     cur \<noteq> [] \<and>
     (isTerminal (last cur) \<or>
      (isCloser (last cur) \<and> butlast cur \<noteq> [] \<and> isTerminal (last (butlast cur))))"

text \<open>The line ends in a colon, a semicolon or a closing parenthesis.\<close>

definition spec_endsHardBreak :: "jsstring \<Rightarrow> bool" where
  "spec_endsHardBreak cur \<longleftrightarrow> cur \<noteq> [] \<and> (last cur = 58 \<or> last cur = 59 \<or> last cur = 41)"

text \<open>
  The join condition as the specification states it: no sentence end, no hard break, and
  a next line that is not empty and not a bullet line.
\<close>

definition spec_join :: "jsstring \<Rightarrow> jsstring \<Rightarrow> bool" where
  "spec_join cur next \<longleftrightarrow>
     \<not> spec_endsSentence cur \<and> \<not> spec_endsHardBreak cur \<and> next \<noteq> [] \<and> \<not> bullets next"

text \<open>What the specification leaves out: the line starts with one of the markers.\<close>

definition spec_startsWithMarker :: "jsstring \<Rightarrow> bool" where
  "spec_startsWithMarker cur \<longleftrightarrow> cur \<noteq> [] \<and> isMarker (hd cur)"

section \<open>Clean form\<close>

text \<open>
  A soft-hyphenated line break between two lines: the first ends in a letter and a
  hyphen, the second starts with a letter.
\<close>

definition softBreak :: "jsstring \<Rightarrow> jsstring \<Rightarrow> bool" where
  "softBreak l l' \<longleftrightarrow>
     (case rev l of h # c # _ \<Rightarrow> h = 45 \<and> isAlpha c | _ \<Rightarrow> False) \<and>
     (case l' of [] \<Rightarrow> False | d # _ \<Rightarrow> isAlpha d)"

text \<open>A line in clean form: tidy, and without a carriage return.\<close>

definition cleanLine :: "jsstring \<Rightarrow> bool" where
  "cleanLine l \<longleftrightarrow> tidyLine l \<and> 13 \<notin> set l"

text \<open>
  The lines of a text in clean form: every line is clean, no line break is a
  soft-hyphenated one, and no line break is a stray wrap, that is, one that the loop
  would remove by joining the line with the next one.
\<close>

fun cleanText :: "jsstring list \<Rightarrow> bool" where
  "cleanText [] = True"
| "cleanText [l] = cleanLine l"
| "cleanText (l # l' # ls) =
     (cleanLine l \<and> \<not> softBreak l l' \<and> (bullets l \<or> \<not> joinSoftly l l') \<and> cleanText (l' # ls))"

section \<open>Concrete runs\<close>

text \<open>
  Where \<open>nfkc\<close> leaves the input as it is (as NFKC does on ASCII text), the function is
  the rest of the pipeline.
\<close>

lemma reconstruct_fixed:
  "nfkc s = s \<Longrightarrow> reconstructResumeText nfkc s = reconstructResumeText id s"
  by (simp add: reconstructResumeText_def)

lemma run_paragraph_and_bullets:
  "reconstructResumeText id
     (js ''Built scalable\<newline>systems for\<newline>millions of users.\<newline>\<newline>- Led team of 5\<newline>- Shipped on time'')
   = js ''Built scalable systems for millions of users.\<newline>- Led team of 5\<newline>- Shipped on time''"
  by code_simp

lemma run_empty: "reconstructResumeText id [] = []"
  by code_simp

text \<open>
  C1, as stated: for the six-line example the result keeps the blank line between the
  paragraph and the bullets. It does not: the result differs from the text of the claim.
\<close>

theorem C1_blank_line_counterexample:
  "reconstructResumeText id
     (js ''Built scalable\<newline>systems for\<newline>millions of users.\<newline>\<newline>- Led team of 5\<newline>- Shipped on time'')
   \<noteq> js ''Built scalable systems for millions of users.\<newline>\<newline>- Led team of 5\<newline>- Shipped on time''"
  unfolding run_paragraph_and_bullets by code_simp

text \<open>
  C1, amended: for the six-line example the first three lines are joined into one
  paragraph, each bullet stays a line of its own, and the blank line of the input is
  dropped: paragraph and bullets are separated by a single line feed.
\<close>

theorem C1_example:
  assumes "nfkc (js ''Built scalable\<newline>systems for\<newline>millions of users.\<newline>\<newline>- Led team of 5\<newline>- Shipped on time'')
           = js ''Built scalable\<newline>systems for\<newline>millions of users.\<newline>\<newline>- Led team of 5\<newline>- Shipped on time''"
  shows "reconstructResumeText nfkc
           (js ''Built scalable\<newline>systems for\<newline>millions of users.\<newline>\<newline>- Led team of 5\<newline>- Shipped on time'')
         = js ''Built scalable systems for millions of users.\<newline>- Led team of 5\<newline>- Shipped on time''"
  using assms run_paragraph_and_bullets
    reconstruct_fixed [of nfkc "js ''Built scalable\<newline>systems for\<newline>millions of users.\<newline>\<newline>- Led team of 5\<newline>- Shipped on time''"]
  by simp

theorem C1_example_witness:
  "id (js ''Built scalable\<newline>systems for\<newline>millions of users.\<newline>\<newline>- Led team of 5\<newline>- Shipped on time'')
     = js ''Built scalable\<newline>systems for\<newline>millions of users.\<newline>\<newline>- Led team of 5\<newline>- Shipped on time'' \<and>
   reconstructResumeText id
     (js ''Built scalable\<newline>systems for\<newline>millions of users.\<newline>\<newline>- Led team of 5\<newline>- Shipped on time'')
   = js ''Built scalable systems for millions of users.\<newline>- Led team of 5\<newline>- Shipped on time''"
  using C1_example [of id] by simp

text \<open>
  C7: the function is total: every function of the model is a total recursive function
  with no error branch, as the source reads no index out of range (\<open>lines[i + 1] || ""\<close>)
  and throws nowhere. On the empty string, which NFKC leaves empty, the result is the
  empty string.
\<close>

theorem C7_empty_input:
  "nfkc [] = [] \<Longrightarrow> reconstructResumeText nfkc [] = []"
  using reconstruct_fixed [of nfkc "[]"] run_empty by simp

theorem C7_empty_input_witness:
  "id ([] :: jsstring) = [] \<and> reconstructResumeText id [] = []"
  using C7_empty_input [of id] by simp

section \<open>The shape of the result\<close>

lemma isSpace_newline: "isSpace 10"
  by (simp add: isSpace_def)

lemma isBlank_isSpace: "isBlank c \<Longrightarrow> isSpace c"
  by (auto simp: isBlank_def isSpace_def)

lemma trim_Nil: "trim [] = []"
  by (simp add: trim_def)

lemma set_trim: "set (trim s) \<subseteq> set s"
proof -
  have "set (trim s) \<subseteq> set (dropWhile isSpace s)"
    unfolding trim_def using set_dropWhileD by fastforce
  also have "\<dots> \<subseteq> set s"
    using set_dropWhileD by fastforce
  finally show ?thesis .
qed

lemma last_trim: "trim s \<noteq> [] \<Longrightarrow> \<not> isSpace (last (trim s))"
  unfolding trim_def by (simp add: last_rev hd_dropWhile)

lemma hd_trim: "trim s \<noteq> [] \<Longrightarrow> \<not> isSpace (hd (trim s))"
proof -
  assume ne: "trim s \<noteq> []"
  let ?t = "dropWhile isSpace s"
  from ne have d: "dropWhile isSpace (rev ?t) \<noteq> []" by (simp add: trim_def)
  then have t: "?t \<noteq> []" by (cases "?t") auto
  have "hd (trim s) = last (dropWhile isSpace (rev ?t))"
    using d by (simp add: trim_def hd_rev)
  also have "\<dots> = last (rev ?t)"
    using d by (metis takeWhile_dropWhile_id last_appendR)
  also have "\<dots> = hd ?t" using t by (simp add: last_rev)
  finally show ?thesis using t by (simp add: hd_dropWhile)
qed

lemma trim_id: "s \<noteq> [] \<Longrightarrow> \<not> isSpace (hd s) \<Longrightarrow> \<not> isSpace (last s) \<Longrightarrow> trim s = s"
  unfolding trim_def by (metis hd_rev dropWhile_eq_self_iff rev_rev_ident)

lemma trim_tidy: "tidyLine e \<Longrightarrow> trim e = e"
  by (simp add: tidyLine_def trim_id)

lemma tidy_trim: "10 \<notin> set s \<Longrightarrow> trim s \<noteq> [] \<Longrightarrow> tidyLine (trim s)"
  using set_trim [of s] by (auto simp: tidyLine_def hd_trim last_trim)

lemma split_no_newline: "\<forall>l \<in> set (split s). 10 \<notin> set l"
  by (induction s) (auto split: list.splits)

lemma split_nonempty: "split s \<noteq> []"
  by (induction s) (auto split: list.splits)

lemma set_trimEnd: "set (trimEnd l) \<subseteq> set l"
  unfolding trimEnd_def using set_dropWhileD by fastforce

lemma splitLines_no_newline: "l \<in> set (splitLines s) \<Longrightarrow> 10 \<notin> set l"
  using split_no_newline set_trimEnd by (fastforce simp: splitLines_def)

lemma flush_tidy: "tidyState st \<Longrightarrow> tidyState (flush st)"
  by (auto simp: tidyState_def flush_def Let_def tidy_trim)

lemma flush_buf: "buf (flush st) = []"
  by (simp add: flush_def Let_def)

lemma addLine_tidy: "tidyState st \<Longrightarrow> 10 \<notin> set cur \<Longrightarrow> tidyState (addLine st cur)"
  by (auto simp: tidyState_def addLine_def)

lemma push_tidy: "tidyState st \<Longrightarrow> tidyLine cur \<Longrightarrow> tidyState (st\<lparr>out := out st @ [cur]\<rparr>)"
  by (auto simp: tidyState_def)

lemma loop_tidy:
  "tidyState st \<Longrightarrow> \<forall>l \<in> set ls. 10 \<notin> set l \<Longrightarrow> tidyState (loop ls st)"
proof (induction ls arbitrary: st)
  case Nil
  then show ?case by simp
next
  case (Cons l ls)
  have nl: "10 \<notin> set (trim l)" using Cons.prems(2) set_trim [of l] by auto
  have rest: "\<forall>l \<in> set ls. 10 \<notin> set l" using Cons.prems(2) by simp
  show ?case
  proof (cases "trim l = []")
    case True
    then show ?thesis using Cons.IH [OF flush_tidy [OF Cons.prems(1)] rest] by simp
  next
    case False
    then have t: "tidyLine (trim l)" using Cons.prems(2) by (simp add: tidy_trim)
    show ?thesis
      using False Cons.IH [OF push_tidy [OF flush_tidy [OF Cons.prems(1)] t] rest]
        Cons.IH [OF addLine_tidy [OF Cons.prems(1) nl] rest]
        Cons.IH [OF flush_tidy [OF addLine_tidy [OF Cons.prems(1) nl]] rest]
      by (simp add: Let_def)
  qed
qed

lemma outLines_tidy: "\<forall>l \<in> set ls. 10 \<notin> set l \<Longrightarrow> list_all tidyLine (outLines ls)"
proof -
  assume a: "\<forall>l \<in> set ls. 10 \<notin> set l"
  have "tidyState \<lparr>out = [], buf = []\<rparr>" by (simp add: tidyState_def)
  from flush_tidy [OF loop_tidy [OF this a]] show ?thesis
    by (simp add: outLines_def tidyState_def)
qed

lemma tidySpaces_line:
  "e \<noteq> [] \<Longrightarrow> \<not> isSpace (last e) \<Longrightarrow> 10 \<notin> set e \<Longrightarrow> tidySpaces (e @ t) = e @ tidySpaces t"
proof (induction e)
  case Nil
  then show ?case by simp
next
  case (Cons c e)
  show ?case
  proof (cases "e = []")
    case True
    then have "\<not> isBlank c" using Cons.prems(2) isBlank_isSpace by auto
    then show ?thesis using True by simp
  next
    case False
    then have l: "\<not> isBlank (last e)" using Cons.prems(2) isBlank_isSpace by auto
    have le: "last e \<in> set e" using False by simp
    have d: "dropWhile isBlank (e @ t) = dropWhile isBlank e @ t"
      using l le by (auto simp: dropWhile_append1)
    have ne: "dropWhile isBlank e \<noteq> []" using l le by auto
    have "hd (dropWhile isBlank e) \<in> set e"
      using ne by (metis hd_in_set set_dropWhileD)
    then have h: "hd (dropWhile isBlank e) \<noteq> 10" using Cons.prems(3) by auto
    have "\<not> (case dropWhile isBlank (e @ t) of [] \<Rightarrow> False | d # _ \<Rightarrow> d = 10)"
      using d ne h by (cases "dropWhile isBlank e") auto
    moreover have "tidySpaces (e @ t) = e @ tidySpaces t"
      using Cons.IH False Cons.prems by simp
    ultimately show ?thesis by simp
  qed
qed

lemma tidySpaces_newline: "tidySpaces (10 # t) = 10 # tidySpaces t"
  by (simp add: isBlank_def)

lemma tidySpaces_join: "list_all tidyLine ls \<Longrightarrow> tidySpaces (join ls) = join ls"
proof (induction ls rule: join.induct)
  case 1
  then show ?case by simp
next
  case (2 l)
  then show ?case using tidySpaces_line [of l "[]"] by (simp add: tidyLine_def)
next
  case (3 l l' ls)
  then show ?case
    using tidySpaces_line [of l "10 # join (l' # ls)"]
    by (simp add: tidyLine_def tidySpaces_newline del: tidySpaces.simps)
qed

lemma collapse_line: "10 \<notin> set e \<Longrightarrow> collapseNewlines (e @ t) = e @ collapseNewlines t"
  by (induction e) auto

lemma hd_join: "ls \<noteq> [] \<Longrightarrow> hd ls \<noteq> [] \<Longrightarrow> hd (join ls) = hd (hd ls)"
  by (induction ls rule: join.induct) auto

lemma join_eq_Nil: "join ls = [] \<longleftrightarrow> ls = [] \<or> ls = [[]]"
  by (induction ls rule: join.induct) auto

lemma last_join: "ls \<noteq> [] \<Longrightarrow> last ls \<noteq> [] \<Longrightarrow> last (join ls) = last (last ls)"
  by (induction ls rule: join.induct) (auto simp: join_eq_Nil)

lemma join_Nil_iff: "list_all tidyLine ls \<Longrightarrow> join ls = [] \<longleftrightarrow> ls = []"
  by (induction ls rule: join.induct) (auto simp: tidyLine_def)

lemma collapse_join: "list_all tidyLine ls \<Longrightarrow> collapseNewlines (join ls) = join ls"
proof (induction ls rule: join.induct)
  case 1
  then show ?case by simp
next
  case (2 l)
  then show ?case using collapse_line [of l "[]"] by (simp add: tidyLine_def)
next
  case (3 l l' ls)
  have "hd (join (l' # ls)) = hd l'" using 3 by (simp add: hd_join tidyLine_def del: join.simps)
  moreover have "join (l' # ls) \<noteq> []" using 3 join_Nil_iff [of "l' # ls"] by simp
  ultimately have "takeWhile (\<lambda>x. x = 10) (join (l' # ls)) = []"
    using 3 isSpace_newline by (cases "join (l' # ls)") (auto simp: tidyLine_def)
  then have "collapseNewlines (10 # join (l' # ls)) = 10 # collapseNewlines (join (l' # ls))"
    by simp
  then show ?case
    using 3 collapse_line [of l "10 # join (l' # ls)"]
    by (simp add: tidyLine_def del: collapseNewlines.simps)
qed

lemma trim_join: "list_all tidyLine ls \<Longrightarrow> trim (join ls) = join ls"
proof (cases "ls = []")
  case True
  then show ?thesis by (simp add: trim_Nil)
next
  case False
  assume a: "list_all tidyLine ls"
  then have "tidyLine (hd ls)" "tidyLine (last ls)"
    using False by (auto simp: list_all_iff)
  then show ?thesis
    using False a join_Nil_iff [of ls] hd_join [of ls] last_join [of ls]
    by (intro trim_id) (auto simp: tidyLine_def)
qed

lemma reconstruct_join:
  "reconstructResumeText nfkc s = join (outLines (splitLines (dehyphenate (nfkc s))))"
proof -
  have "list_all tidyLine (outLines (splitLines (dehyphenate (nfkc s))))"
    using outLines_tidy splitLines_no_newline by blast
  then show ?thesis
    by (simp add: reconstructResumeText_def Let_def tidySpaces_join collapse_join trim_join)
qed

lemma plain_no_double: "10 \<notin> set a \<Longrightarrow> \<not> sublist [10, 10] a"
  by (induction a) (auto simp: sublist_Cons_right)

lemma double_across:
  "10 \<notin> set a \<Longrightarrow> sublist [10, 10] (a @ 10 # b) \<longleftrightarrow> prefix [10] b \<or> sublist [10, 10] b"
  by (induction a) (auto simp: sublist_Cons_right)

lemma join_no_double: "list_all tidyLine ls \<Longrightarrow> \<not> sublist [10, 10] (join ls)"
proof (induction ls rule: join.induct)
  case 1
  then show ?case by simp
next
  case (2 l)
  then show ?case by (simp add: tidyLine_def plain_no_double)
next
  case (3 l l' ls)
  have "hd (join (l' # ls)) = hd l'" using 3 by (simp add: hd_join tidyLine_def del: join.simps)
  then have p: "\<not> prefix [10] (join (l' # ls))"
    using 3 isSpace_newline by (cases "join (l' # ls)") (auto simp: tidyLine_def)
  have n: "\<not> sublist [10, 10] (join (l' # ls))" using 3 by simp
  have l: "10 \<notin> set l" using 3 by (simp add: tidyLine_def)
  have "join (l # l' # ls) = l @ 10 # join (l' # ls)" by simp
  then show ?case using p n double_across [OF l] by simp
qed

lemma split_plain: "10 \<notin> set e \<Longrightarrow> split e = [e]"
  by (induction e) auto

lemma split_line: "10 \<notin> set e \<Longrightarrow> split (e @ 10 # t) = e # split t"
  by (induction e) auto

lemma split_join: "ls \<noteq> [] \<Longrightarrow> \<forall>l \<in> set ls. 10 \<notin> set l \<Longrightarrow> split (join ls) = ls"
  by (induction ls rule: join.induct) (auto simp: split_plain split_line)

lemma run_collapse:
  "length (takeWhile (\<lambda>x. x = 10) (collapseNewlines t)) = min 2 (length (takeWhile (\<lambda>x. x = 10) t))"
proof (induction t rule: collapseNewlines.induct)
  case 1
  then show ?case by simp
next
  case (2 c cs)
  show ?case
  proof (cases "3 \<le> length (takeWhile (\<lambda>x. x = 10) (c # cs))")
    case True
    have "takeWhile (\<lambda>x. x = 10) (dropWhile (\<lambda>x. x = 10) (c # cs)) = []"
      by (metis (mono_tags, lifting) hd_dropWhile takeWhile.simps(1) takeWhile_eq_Nil_iff)
    then show ?thesis using True 2(1) by (simp split: if_splits)
  next
    case False
    then show ?thesis using 2(2) by (simp split: if_splits)
  qed
qed

lemma prefix_triple_run: "prefix [10, 10, 10] s \<Longrightarrow> 3 \<le> length (takeWhile (\<lambda>x. x = 10) s)"
  by (auto simp: prefix_def)

lemma collapse_no_triple: "\<not> sublist [10, 10, 10] (collapseNewlines t)"
proof (induction t rule: collapseNewlines.induct)
  case 1
  then show ?case by simp
next
  case (2 c cs)
  have r: "length (takeWhile (\<lambda>x. x = 10) (collapseNewlines (c # cs))) \<le> 2"
    by (simp only: run_collapse)
  have np: "\<not> prefix [10, 10, 10] (collapseNewlines (c # cs))"
    using r prefix_triple_run by fastforce
  show ?case
  proof (cases "3 \<le> length (takeWhile (\<lambda>x. x = 10) (c # cs))")
    case True
    define v where "v = collapseNewlines (dropWhile (\<lambda>x. x = 10) (c # cs))"
    have eq: "collapseNewlines (c # cs) = 10 # 10 # v" using True by (simp add: v_def)
    have nv: "\<not> sublist [10, 10, 10] v" using 2(1) True by (simp add: v_def)
    have "takeWhile (\<lambda>x. x = 10) (dropWhile (\<lambda>x. x = 10) (c # cs)) = []"
      by (metis (mono_tags, lifting) hd_dropWhile takeWhile.simps(1) takeWhile_eq_Nil_iff)
    then have "length (takeWhile (\<lambda>x. x = 10) v) = 0"
      unfolding v_def run_collapse by simp
    then have pv: "\<not> prefix [10] v" by (cases v) auto
    then have pv2: "\<not> prefix [10, 10] v" by (auto simp: prefix_def)
    show ?thesis unfolding eq using nv pv pv2 by (auto simp: sublist_Cons_right)
  next
    case False
    then have eq: "collapseNewlines (c # cs) = c # collapseNewlines cs" by simp
    have "\<not> sublist [10, 10, 10] (collapseNewlines cs)" using 2(2) False by simp
    then show ?thesis using np eq by (simp add: sublist_Cons_right del: collapseNewlines.simps)
  qed
qed

lemma collapse_run:
  "3 \<le> n \<Longrightarrow> \<not> prefix [10] t \<Longrightarrow>
   collapseNewlines (replicate n 10 @ t) = 10 # 10 # collapseNewlines t"
proof -
  assume n: "3 \<le> n" and t: "\<not> prefix [10] t"
  have tw: "takeWhile (\<lambda>x. x = 10) t = []" using t by (cases t) auto
  have a: "takeWhile (\<lambda>x. x = 10) (replicate n 10 @ t) = replicate n 10"
    by (induction n) (simp_all add: tw)
  have b: "dropWhile (\<lambda>x. x = 10) (replicate n 10 @ t) = t"
    by (metis a same_append_eq takeWhile_dropWhile_id)
  obtain m where m: "n = Suc m" using n by (cases n) auto
  have "replicate n 10 @ t = 10 # (replicate m 10 @ t)" by (simp add: m)
  then show ?thesis using a b n by (metis collapseNewlines.simps(2) length_replicate)
qed

text \<open>
  C9: the result has no blank line: nowhere do two line feeds follow each other.
\<close>

theorem C9_no_blank_line:
  "\<not> sublist [10, 10] (reconstructResumeText nfkc s)"
  using join_no_double outLines_tidy splitLines_no_newline
  unfolding reconstruct_join by blast

text \<open>
  C10: every line of the result is trimmed on both sides: it is empty (only when the
  whole result is) or neither starts nor ends with white space.
\<close>

theorem C10_lines_trimmed:
  assumes "l \<in> set (split (reconstructResumeText nfkc s))"
  shows "trim l = l \<and> (l = [] \<or> (\<not> isSpace (hd l) \<and> \<not> isSpace (last l)))"
proof -
  let ?ls = "outLines (splitLines (dehyphenate (nfkc s)))"
  have t: "list_all tidyLine ?ls"
    using outLines_tidy splitLines_no_newline by blast
  show ?thesis
  proof (cases "?ls = []")
    case True
    then have "l = []" using assms by (simp add: reconstruct_join)
    then show ?thesis by (simp add: trim_Nil)
  next
    case False
    have "split (join ?ls) = ?ls"
      using False t by (intro split_join) (auto simp: list_all_iff tidyLine_def)
    then have "tidyLine l" using assms t by (simp add: reconstruct_join list_all_iff)
    then show ?thesis by (simp add: trim_tidy) (simp add: tidyLine_def)
  qed
qed

theorem C10_lines_trimmed_witness:
  "js ''- a'' \<in> set (split (reconstructResumeText id (js ''x  \<newline>   - a  \<newline>'')))
   \<and> trim (js ''- a'') = js ''- a''
   \<and> \<not> isSpace (hd (js ''- a'')) \<and> \<not> isSpace (last (js ''- a''))"
proof -
  have h: "js ''- a'' \<in> set (split (reconstructResumeText id (js ''x  \<newline>   - a  \<newline>'')))"
    by code_simp
  have n: "js ''- a'' \<noteq> []" by (simp add: js_def)
  show ?thesis using h n C10_lines_trimmed [OF h] by simp
qed

text \<open>
  C6: the function is total, and its result is trimmed (empty, or without white space at
  either end) and has no run of three line feeds. The step that collapses line feeds
  leaves no run of three in any text, and turns a whole run of three or more into two.
\<close>

theorem C6_trimmed_no_triple:
  "trim (reconstructResumeText nfkc s) = reconstructResumeText nfkc s \<and>
   (reconstructResumeText nfkc s = [] \<or>
    (\<not> isSpace (hd (reconstructResumeText nfkc s)) \<and>
     \<not> isSpace (last (reconstructResumeText nfkc s)))) \<and>
   \<not> sublist [10, 10, 10] (reconstructResumeText nfkc s) \<and>
   \<not> sublist [10, 10, 10] (collapseNewlines t) \<and>
   (3 \<le> n \<and> \<not> prefix [10] u \<longrightarrow>
      collapseNewlines (replicate n 10 @ u) = 10 # 10 # collapseNewlines u)"
proof -
  let ?ls = "outLines (splitLines (dehyphenate (nfkc s)))"
  let ?r = "reconstructResumeText nfkc s"
  have t: "list_all tidyLine ?ls"
    using outLines_tidy splitLines_no_newline by blast
  have a: "trim ?r = ?r" using t by (simp add: reconstruct_join trim_join)
  have b: "?r = [] \<or> (\<not> isSpace (hd ?r) \<and> \<not> isSpace (last ?r))"
    using a hd_trim [of ?r] last_trim [of ?r] by auto
  have "sublist [10, 10] [10, 10, 10 :: jschar]"
    by (simp add: sublist_Cons_right)
  then have c: "\<not> sublist [10, 10, 10] ?r"
    using join_no_double [OF t] sublist_order.order_trans unfolding reconstruct_join by blast
  show ?thesis using a b c collapse_no_triple collapse_run by blast
qed

theorem C6_trimmed_no_triple_witness:
  "(3 :: nat) \<le> 4 \<and> \<not> prefix [10] (js ''b'') \<and>
   reconstructResumeText id (js '' a\<newline>\<newline>\<newline>\<newline>b '') \<noteq> [] \<and>
   trim (reconstructResumeText id (js '' a\<newline>\<newline>\<newline>\<newline>b ''))
     = reconstructResumeText id (js '' a\<newline>\<newline>\<newline>\<newline>b '') \<and>
   \<not> isSpace (hd (reconstructResumeText id (js '' a\<newline>\<newline>\<newline>\<newline>b ''))) \<and>
   \<not> isSpace (last (reconstructResumeText id (js '' a\<newline>\<newline>\<newline>\<newline>b ''))) \<and>
   \<not> sublist [10, 10, 10] (reconstructResumeText id (js '' a\<newline>\<newline>\<newline>\<newline>b '')) \<and>
   \<not> sublist [10, 10, 10] (collapseNewlines (js ''a\<newline>\<newline>\<newline>\<newline>b'')) \<and>
   collapseNewlines (replicate 4 10 @ js ''b'') = 10 # 10 # collapseNewlines (js ''b'')"
proof -
  have h: "(3 :: nat) \<le> 4 \<and> \<not> prefix [10] (js ''b'')" by (simp add: js_def)
  have n: "reconstructResumeText id (js '' a\<newline>\<newline>\<newline>\<newline>b '') \<noteq> []" by code_simp
  show ?thesis
    using h n
      C6_trimmed_no_triple [of id "js '' a\<newline>\<newline>\<newline>\<newline>b ''" "js ''a\<newline>\<newline>\<newline>\<newline>b''" 4 "js ''b''"]
    by blast
qed

section \<open>Soft hyphens\<close>

lemma alpha_not_break: "isAlpha c \<Longrightarrow> c \<noteq> 45 \<and> c \<noteq> 10"
  by (auto simp: isAlpha_def)

lemma dehyphenate_Cons: "\<exists>r. dehyphenate (c # cs) = c # r"
  by (cases "(c # cs)" rule: dehyphenate.cases) auto

lemma hd_dehyphenate: "hd (dehyphenate (c # cs)) = c"
  using dehyphenate_Cons [of c cs] by auto

lemma dehyphenate_eq_Nil: "dehyphenate s = [] \<longleftrightarrow> s = []"
proof (cases s)
  case Nil
  then show ?thesis by simp
next
  case (Cons c cs)
  then show ?thesis using dehyphenate_Cons [of c cs] by auto
qed

lemma last_dehyphenate: "s \<noteq> [] \<Longrightarrow> last (dehyphenate s) = last s"
  by (induction s rule: dehyphenate.induct) (auto simp: dehyphenate_eq_Nil)

lemma length_dehyphenate: "length (dehyphenate s) \<le> length s"
  by (induction s rule: dehyphenate.induct) auto

lemma dehyphenate_unwrap:
  "isAlpha c \<Longrightarrow> isAlpha d \<Longrightarrow>
   dehyphenate (a @ c # 45 # 10 # d # b) = dehyphenate (a @ [c]) @ dehyphenate (d # b)"
  by (induction a rule: dehyphenate.induct) (auto dest: alpha_not_break)

lemma dehyphenate_same:
  "\<not> (\<exists>a c d b. isAlpha c \<and> isAlpha d \<and> s = a @ c # 45 # 10 # d # b) \<Longrightarrow> dehyphenate s = s"
proof (induction s rule: dehyphenate.induct)
  case (1 c h n d rest)
  have t: "\<not> (isAlpha c \<and> h = 45 \<and> n = 10 \<and> isAlpha d)"
    using 1(3) by (metis append_Nil)
  have "\<not> (\<exists>a c' d' b. isAlpha c' \<and> isAlpha d' \<and> h # n # d # rest = a @ c' # 45 # 10 # d' # b)"
    using 1(3) by (metis append_Cons)
  then show ?case using 1(2) t by auto
qed simp_all

lemma run_soft_hyphen:
  "reconstructResumeText id (js ''infrastructur-\<newline>e team'') = js ''infrastructure team''"
  by code_simp

text \<open>
  C5: the example of the specification is rejoined; wherever a letter, a hyphen, a line
  feed and a letter follow each other, the hyphen and the line feed are removed and the
  two letters become neighbours; and the step changes a text only if the text holds such
  a place, with a letter on both sides.
\<close>

theorem C5_soft_hyphen:
  "(nfkc (js ''infrastructur-\<newline>e team'') = js ''infrastructur-\<newline>e team'' \<longrightarrow>
      reconstructResumeText nfkc (js ''infrastructur-\<newline>e team'') = js ''infrastructure team'') \<and>
   (isAlpha c \<and> isAlpha d \<longrightarrow>
      dehyphenate (a @ c # 45 # 10 # d # b) = dehyphenate (a @ [c]) @ dehyphenate (d # b) \<and>
      last (dehyphenate (a @ [c])) = c \<and> hd (dehyphenate (d # b)) = d) \<and>
   (dehyphenate s = s \<longleftrightarrow>
      \<not> (\<exists>a c d b. isAlpha c \<and> isAlpha d \<and> s = a @ c # 45 # 10 # d # b))"
proof (intro conjI impI)
  assume "nfkc (js ''infrastructur-\<newline>e team'') = js ''infrastructur-\<newline>e team''"
  then show "reconstructResumeText nfkc (js ''infrastructur-\<newline>e team'') = js ''infrastructure team''"
    using run_soft_hyphen reconstruct_fixed [of nfkc "js ''infrastructur-\<newline>e team''"] by simp
next
  assume "isAlpha c \<and> isAlpha d"
  then show "dehyphenate (a @ c # 45 # 10 # d # b) = dehyphenate (a @ [c]) @ dehyphenate (d # b)"
    by (simp add: dehyphenate_unwrap)
next
  show "last (dehyphenate (a @ [c])) = c" by (simp add: last_dehyphenate)
next
  show "hd (dehyphenate (d # b)) = d" by (rule hd_dehyphenate)
next
  show "dehyphenate s = s \<longleftrightarrow>
      \<not> (\<exists>a c d b. isAlpha c \<and> isAlpha d \<and> s = a @ c # 45 # 10 # d # b)"
  proof
    assume e: "dehyphenate s = s"
    show "\<not> (\<exists>a c d b. isAlpha c \<and> isAlpha d \<and> s = a @ c # 45 # 10 # d # b)"
    proof
      assume "\<exists>a c d b. isAlpha c \<and> isAlpha d \<and> s = a @ c # 45 # 10 # d # b"
      then obtain a c d b where h: "isAlpha c" "isAlpha d" "s = a @ c # 45 # 10 # d # b" by blast
      have "length (dehyphenate s) \<le> length (a @ [c]) + length (d # b)"
        unfolding h(3) dehyphenate_unwrap [OF h(1,2)]
        using length_dehyphenate [of "a @ [c]"] length_dehyphenate [of "d # b"] by simp
      then show False using e h(3) by simp
    qed
  next
    assume "\<not> (\<exists>a c d b. isAlpha c \<and> isAlpha d \<and> s = a @ c # 45 # 10 # d # b)"
    then show "dehyphenate s = s" by (rule dehyphenate_same)
  qed
qed


theorem C5_soft_hyphen_witness:
  "id (js ''infrastructur-\<newline>e team'') = js ''infrastructur-\<newline>e team'' \<and>
   isAlpha 114 \<and> isAlpha 101 \<and>
   reconstructResumeText id (js ''infrastructur-\<newline>e team'') = js ''infrastructure team'' \<and>
   dehyphenate (js ''infrastructu'' @ 114 # 45 # 10 # 101 # js '' team'')
     = dehyphenate (js ''infrastructu'' @ [114]) @ dehyphenate (101 # js '' team'') \<and>
   dehyphenate (js ''co-op'') = js ''co-op'' \<and>
   \<not> (\<exists>a c d b. isAlpha c \<and> isAlpha d \<and> js ''co-op'' = a @ c # 45 # 10 # d # b)"
proof -
  have h1: "id (js ''infrastructur-\<newline>e team'') = js ''infrastructur-\<newline>e team''" by simp
  have h2: "isAlpha 114 \<and> isAlpha 101" by (simp add: isAlpha_def)
  have h3: "dehyphenate (js ''co-op'') = js ''co-op''" by code_simp
  show ?thesis
    using h1 h2 h3
      C5_soft_hyphen [of id 114 101 "js ''infrastructu''" "js '' team''" "js ''co-op''"]
    by blast
qed


section \<open>The handler returns the length of the text\<close>

lemma code_caught: "code (caught e) = 500"
  by (cases e) (simp add: caught_def)

text \<open>
  C8: in every response of status 200 the request carried a file, the count \<open>chars\<close> is
  the length of \<open>text\<close>, and \<open>text\<close> is \<open>reconstructResumeText\<close> of the extracted raw
  text: with an upstream parser, the property \<open>text\<close> of the JSON that the parser
  answered with for this file (the empty string if there is no such string); without
  one, the text of the uploaded file, whose type is a text type or JSON.
\<close>

theorem C8_chars_is_length:
  assumes "code (POST nfkc toLowerCase req) = 200"
  shows "\<exists>f raw.
           formData req = Inr (Upload f) \<and>
           payload (POST nfkc toLowerCase req)
             = Parsed (reconstructResumeText nfkc raw) (length (reconstructResumeText nfkc raw)) \<and>
           (let upstream = stripSlash (orElse (BACKEND_URL req) (orElse (NEXT_PUBLIC_BACKEND_URL req) []))
            in if upstream \<noteq> [] then
                 (\<exists>res data.
                    fetch req (upstream @ js ''/parse/resume'') f (orElse (Some (name f)) (js ''resume''))
                      = Inr res \<and>
                    ok res \<and> resJson res = Inr data \<and> raw = textOf data)
               else
                 ftext f = Inr raw \<and>
                 (startsWith (toLowerCase (orElse (Some (ftype f)) [])) (js ''text/'') \<or>
                  toLowerCase (orElse (Some (ftype f)) []) = js ''application/json''))"
proof (cases "formData req")
  case (Inl e)
  then have "code (POST nfkc toLowerCase req) = 500"
    by (simp add: POST_def code_caught)
  then show ?thesis using assms by simp
next
  case (Inr v)
  define upstream where
    "upstream = stripSlash (orElse (BACKEND_URL req) (orElse (NEXT_PUBLIC_BACKEND_URL req) []))"
  show ?thesis
  proof (cases v)
    case Absent
    then have "code (POST nfkc toLowerCase req) = 400" using Inr by (simp add: POST_def)
    then show ?thesis using assms by simp
  next
    case (Field x)
    then have "code (POST nfkc toLowerCase req) = 400" using Inr by (simp add: POST_def)
    then show ?thesis using assms by simp
  next
    case (Upload f)
    show ?thesis
    proof (cases "upstream = []")
      case True
      define mime where "mime = toLowerCase (orElse (Some (ftype f)) [])"
      show ?thesis
      proof (cases "startsWith mime (js ''text/'') \<or> mime = js ''application/json''")
        case False
        then have "code (POST nfkc toLowerCase req) = 501"
          using Inr Upload True unfolding upstream_def mime_def by (simp add: POST_def)
        then show ?thesis using assms by simp
      next
        case mimeOk: True
        show ?thesis
        proof (cases "ftext f")
          case (Inl e)
          then have "code (POST nfkc toLowerCase req) = 500"
            using Inr Upload True mimeOk unfolding upstream_def mime_def
            by (simp add: POST_def code_caught)
          then show ?thesis using assms by simp
        next
          case raw: (Inr raw)
          have "payload (POST nfkc toLowerCase req)
                = Parsed (reconstructResumeText nfkc raw) (length (reconstructResumeText nfkc raw))"
            using Inr raw Upload True mimeOk unfolding upstream_def mime_def
            by (simp add: POST_def Let_def)
          then show ?thesis
            using Inr raw Upload True mimeOk unfolding upstream_def mime_def
            by (intro exI [of _ f] exI [of _ raw]) (simp add: Let_def)
        qed
      qed
    next
      case False
      show ?thesis
      proof (cases "fetch req (upstream @ js ''/parse/resume'') f (orElse (Some (name f)) (js ''resume''))")
        case (Inl e)
        then have "code (POST nfkc toLowerCase req) = 500"
          using Inr Upload False unfolding upstream_def by (simp add: POST_def code_caught)
        then show ?thesis using assms by simp
      next
        case res: (Inr res)
        show ?thesis
        proof (cases "ok res")
          case False
          then have "code (POST nfkc toLowerCase req) = 502"
            using Inr Upload \<open>upstream \<noteq> []\<close> res unfolding upstream_def by (simp add: POST_def)
          then show ?thesis using assms by simp
        next
          case True
          show ?thesis
          proof (cases "resJson res")
            case (Inl e)
            then have "code (POST nfkc toLowerCase req) = 500"
              using Inr Upload \<open>upstream \<noteq> []\<close> res True unfolding upstream_def
              by (simp add: POST_def code_caught)
            then show ?thesis using assms by simp
          next
            case data: (Inr data)
            have "payload (POST nfkc toLowerCase req)
                  = Parsed (reconstructResumeText nfkc (textOf data))
                      (length (reconstructResumeText nfkc (textOf data)))"
              using Inr Upload \<open>upstream \<noteq> []\<close> res True data unfolding upstream_def
              by (simp add: POST_def Let_def)
            then show ?thesis
              using Inr Upload \<open>upstream \<noteq> []\<close> res True data unfolding upstream_def
              by (intro exI [of _ f] exI [of _ "textOf data"]) (simp add: Let_def)
          qed
        qed
      qed
    qed
  qed
qed

theorem C8_chars_is_length_witness:
  "code (POST id id
      \<lparr>BACKEND_URL = None, NEXT_PUBLIC_BACKEND_URL = Some (js ''/''),
       formData = Inr (Upload \<lparr>name = js ''cv.txt'', ftype = js ''text/plain'',
                              ftext = Inr (js ''Skills:\<newline>  Python  '')\<rparr>),
       fetch = (\<lambda>url f n. Inl (Thrown None))\<rparr>) = 200 \<and>
   payload (POST id id
      \<lparr>BACKEND_URL = None, NEXT_PUBLIC_BACKEND_URL = Some (js ''/''),
       formData = Inr (Upload \<lparr>name = js ''cv.txt'', ftype = js ''text/plain'',
                              ftext = Inr (js ''Skills:\<newline>  Python  '')\<rparr>),
       fetch = (\<lambda>url f n. Inl (Thrown None))\<rparr>)
     = Parsed (reconstructResumeText id (js ''Skills:\<newline>  Python  ''))
         (length (reconstructResumeText id (js ''Skills:\<newline>  Python  ''))) \<and>
   reconstructResumeText id (js ''Skills:\<newline>  Python  '') = js ''Skills:\<newline>Python'' \<and>
   length (reconstructResumeText id (js ''Skills:\<newline>  Python  '')) = 14"
proof -
  let ?req = "\<lparr>BACKEND_URL = None, NEXT_PUBLIC_BACKEND_URL = Some (js ''/''),
       formData = Inr (Upload \<lparr>name = js ''cv.txt'', ftype = js ''text/plain'',
                              ftext = Inr (js ''Skills:\<newline>  Python  '')\<rparr>),
       fetch = (\<lambda>url f n. Inl (Thrown None))\<rparr>"
  have h: "code (POST id id ?req) = 200"
    by (simp add: POST_def orElse_def stripSlash_def startsWith_def js_def Let_def)
  have u: "stripSlash (orElse (BACKEND_URL ?req) (orElse (NEXT_PUBLIC_BACKEND_URL ?req) [])) = []"
    by (simp add: orElse_def stripSlash_def js_def)
  obtain f raw where a: "formData ?req = Inr (Upload f)"
    and b: "payload (POST id id ?req)
              = Parsed (reconstructResumeText id raw) (length (reconstructResumeText id raw))"
    and c: "ftext f = Inr raw"
    using C8_chars_is_length [OF h] unfolding u by (auto simp: Let_def)
  have "f = \<lparr>name = js ''cv.txt'', ftype = js ''text/plain'',
              ftext = Inr (js ''Skills:\<newline>  Python  '')\<rparr>"
    using a by simp
  then have r: "raw = js ''Skills:\<newline>  Python  ''" using c by simp
  have e: "reconstructResumeText id (js ''Skills:\<newline>  Python  '') = js ''Skills:\<newline>Python''"
    by code_simp
  have l: "length (reconstructResumeText id (js ''Skills:\<newline>  Python  '')) = 14"
    unfolding e by (simp add: js_def)
  show ?thesis using h b r e l by simp
qed

section \<open>The loop, line by line\<close>

lemma bullets_Nil: "\<not> bullets []"
  by (simp add: bullets_def)

lemma joinSoftly_stop: "n = [] \<or> bullets n \<Longrightarrow> \<not> joinSoftly cur n"
  by (auto simp: joinSoftly_def)

lemma trim_trim: "trim (trim l) = trim l"
proof (cases "trim l = []")
  case True
  then show ?thesis by (simp add: trim_Nil)
next
  case False
  then show ?thesis by (simp add: trim_id hd_trim last_trim)
qed

lemma flush_prefix:
  "flush \<lparr>out = o1 @ o2, buf = b\<rparr> =
     \<lparr>out = o1 @ out (flush \<lparr>out = o2, buf = b\<rparr>), buf = buf (flush \<lparr>out = o2, buf = b\<rparr>)\<rparr>"
  by (simp add: flush_def Let_def)

lemma loop_prefix:
  "loop ls \<lparr>out = o1 @ o2, buf = b\<rparr> =
     \<lparr>out = o1 @ out (loop ls \<lparr>out = o2, buf = b\<rparr>), buf = buf (loop ls \<lparr>out = o2, buf = b\<rparr>)\<rparr>"
proof (induction ls arbitrary: o2 b)
  case Nil
  then show ?case by simp
next
  case (Cons l ls)
  show ?case
    by (simp add: Let_def flush_def addLine_def Cons.IH del: append_assoc)
       (simp add: Cons.IH [symmetric])
qed

lemma loop_append:
  "rest = [] \<or> trim (hd rest) = [] \<or> bullets (trim (hd rest)) \<Longrightarrow>
   loop (pre @ rest) st = loop rest (loop pre st)"
proof (induction pre arbitrary: st)
  case Nil
  then show ?case by simp
next
  case (Cons x pre)
  show ?case
  proof (cases pre)
    case Nil
    have "\<not> joinSoftly (trim x) (trim (case rest of [] \<Rightarrow> [] | l' # _ \<Rightarrow> l'))"
      using Cons.prems by (cases rest) (auto simp: joinSoftly_stop trim_Nil)
    then show ?thesis using Nil by (simp add: Let_def joinSoftly_stop trim_Nil)
  next
    case (Cons y ys)
    then show ?thesis using Cons.IH Cons.prems by (simp add: Let_def)
  qed
qed

lemma flush_loop_init:
  "flush (loop ls \<lparr>out = [], buf = []\<rparr>) = \<lparr>out = outLines ls, buf = []\<rparr>"
  by (simp add: outLines_def flush_def Let_def)

lemma outLines_prefix:
  "out (flush (loop ls \<lparr>out = o1, buf = []\<rparr>)) = o1 @ outLines ls"
proof -
  obtain o2 b where r: "loop ls \<lparr>out = [], buf = []\<rparr> = \<lparr>out = o2, buf = b\<rparr>"
    by (cases "loop ls \<lparr>out = [], buf = []\<rparr>") simp
  have "loop ls \<lparr>out = o1 @ [], buf = []\<rparr> = \<lparr>out = o1 @ o2, buf = b\<rparr>"
    using loop_prefix [of ls o1 "[]" "[]"] r by simp
  then show ?thesis
    using flush_prefix [of o1 o2 b] r by (simp add: outLines_def)
qed

lemma outLines_bullet:
  assumes "bullets (trim l)"
  shows "outLines (pre @ l # post) = outLines pre @ trim l # outLines post"
proof -
  have ne: "trim l \<noteq> []" using assms bullets_Nil by auto
  have "loop (pre @ l # post) \<lparr>out = [], buf = []\<rparr> = loop (l # post) (loop pre \<lparr>out = [], buf = []\<rparr>)"
    using assms by (intro loop_append) simp
  also have "\<dots> = loop post \<lparr>out = outLines pre @ [trim l], buf = []\<rparr>"
    using assms ne by (simp add: Let_def flush_loop_init)
  finally show ?thesis
    using outLines_prefix [of post "outLines pre @ [trim l]"] by (simp add: outLines_def)
qed

text \<open>
  C3: a line that the expression \<open>bullets\<close> recognises is a line of the result by itself,
  whatever stands before it: the lines before it and the lines after it are reconstructed
  as if each part were alone, so nothing is joined to the bullet line and nothing is
  carried across it.
\<close>

theorem C3_bullet_own_line:
  assumes "splitLines (dehyphenate (nfkc s)) = pre @ l # post" and "bullets (trim l)"
  shows "reconstructResumeText nfkc s = join (outLines pre @ trim l # outLines post) \<and>
         split (reconstructResumeText nfkc s) = outLines pre @ trim l # outLines post"
proof -
  let ?ls = "outLines (splitLines (dehyphenate (nfkc s)))"
  have t: "list_all tidyLine ?ls"
    using outLines_tidy splitLines_no_newline by blast
  have e: "?ls = outLines pre @ trim l # outLines post"
    using assms by (simp add: outLines_bullet)
  have "split (join ?ls) = ?ls"
    using t e by (intro split_join) (auto simp: list_all_iff tidyLine_def)
  then show ?thesis using e by (simp add: reconstruct_join)
qed

theorem C3_bullet_own_line_witness:
  "splitLines (dehyphenate (id (js ''Responsibilities\<newline>1) Managed budget\<newline>for the team'')))
     = [js ''Responsibilities''] @ js ''1) Managed budget'' # [js ''for the team''] \<and>
   bullets (trim (js ''1) Managed budget'')) \<and>
   reconstructResumeText id (js ''Responsibilities\<newline>1) Managed budget\<newline>for the team'')
     = js ''Responsibilities\<newline>1) Managed budget\<newline>for the team'' \<and>
   split (reconstructResumeText id (js ''Responsibilities\<newline>1) Managed budget\<newline>for the team''))
     = [js ''Responsibilities'', js ''1) Managed budget'', js ''for the team'']"
proof -
  have h1: "splitLines (dehyphenate (id (js ''Responsibilities\<newline>1) Managed budget\<newline>for the team'')))
     = [js ''Responsibilities''] @ js ''1) Managed budget'' # [js ''for the team'']"
    by code_simp
  have h2: "bullets (trim (js ''1) Managed budget''))" by code_simp
  have j: "join [js ''Responsibilities'', js ''1) Managed budget'', js ''for the team'']
           = js ''Responsibilities\<newline>1) Managed budget\<newline>for the team''"
    by code_simp
  have k: "outLines [js ''Responsibilities''] @ trim (js ''1) Managed budget'') # outLines [js ''for the team'']
           = [js ''Responsibilities'', js ''1) Managed budget'', js ''for the team'']"
    by code_simp
  show ?thesis
    using h1 h2
      C3_bullet_own_line [of id "js ''Responsibilities\<newline>1) Managed budget\<newline>for the team''"
        "[js ''Responsibilities'']" "js ''1) Managed budget''" "[js ''for the team'']"]
    unfolding k j by blast
qed

section \<open>The join rule\<close>

lemma rev_trim: "dropWhile isSpace (rev (trim l)) = rev (trim l)"
proof (cases "trim l = []")
  case True
  then show ?thesis by simp
next
  case False
  then show ?thesis using last_trim [of l] by (simp add: dropWhile_eq_self_iff hd_rev)
qed

lemma front_trim: "dropWhile isSpace (trim l) = trim l"
proof (cases "trim l = []")
  case True
  then show ?thesis by simp
next
  case False
  then show ?thesis using hd_trim [of l] by (simp add: dropWhile_eq_self_iff)
qed

lemma sentenceEnd_trim: "sentenceEnd (trim l) = spec_endsSentence (trim l)"
proof (cases "trim l" rule: rev_cases)
  case Nil
  then show ?thesis by (simp add: sentenceEnd_def spec_endsSentence_def)
next
  case (snoc p c)
  have "sentenceEnd (trim l) =
        (case rev (trim l) of [] \<Rightarrow> False
         | c # r \<Rightarrow> isTerminal c \<or> (isCloser c \<and> (case r of [] \<Rightarrow> False | d # _ \<Rightarrow> isTerminal d)))"
    by (simp add: sentenceEnd_def rev_trim)
  then have a: "sentenceEnd (trim l) =
        (isTerminal c \<or> (isCloser c \<and> (case rev p of [] \<Rightarrow> False | d # _ \<Rightarrow> isTerminal d)))"
    by (simp add: snoc)
  have b: "(case rev p of [] \<Rightarrow> False | d # _ \<Rightarrow> isTerminal d) = (p \<noteq> [] \<and> isTerminal (last p))"
    by (cases p rule: rev_cases) auto
  show ?thesis unfolding a b by (simp add: spec_endsSentence_def snoc)
qed

lemma hardBreakAfter_trim:
  "hardBreakAfter (trim l) = (spec_endsHardBreak (trim l) \<or> spec_startsWithMarker (trim l))"
proof -
  have "markerFirst (trim l) = (case trim l of [] \<Rightarrow> False | c # _ \<Rightarrow> isMarker c)"
    by (simp add: markerFirst_def front_trim)
  then have m: "markerFirst (trim l) = spec_startsWithMarker (trim l)"
    by (cases "trim l") (simp_all add: spec_startsWithMarker_def)
  have h: "hardBreakAfter (trim l) =
        ((case rev (trim l) of [] \<Rightarrow> False | c # _ \<Rightarrow> c = 58 \<or> c = 59) \<or> markerFirst (trim l) \<or>
         (case rev (trim l) of [] \<Rightarrow> False | c # _ \<Rightarrow> c = 41))"
    by (simp add: hardBreakAfter_def rev_trim)
  have e: "spec_endsHardBreak (trim l) =
        ((case rev (trim l) of [] \<Rightarrow> False | c # _ \<Rightarrow> c = 58 \<or> c = 59) \<or>
         (case rev (trim l) of [] \<Rightarrow> False | c # _ \<Rightarrow> c = 41))"
    by (cases "trim l" rule: rev_cases) (auto simp: spec_endsHardBreak_def)
  show ?thesis unfolding h e m by blast
qed

lemma joinSoftly_trim:
  "trim l \<noteq> [] \<Longrightarrow>
   joinSoftly (trim l) next \<longleftrightarrow> spec_join (trim l) next \<and> \<not> spec_startsWithMarker (trim l)"
  by (auto simp: joinSoftly_def spec_join_def sentenceEnd_trim hardBreakAfter_trim)

lemma trim_glue:
  assumes "b \<noteq> []" and "\<not> isSpace (hd b)" and "trim l \<noteq> []"
  shows "trim (b @ 32 # trim l) = b @ 32 # trim l"
  using assms last_trim [of l] by (intro trim_id) simp_all

lemma loop_join:
  assumes "trim l \<noteq> []" and "\<not> bullets (trim l)"
    and "joinSoftly (trim l) (trim (case ls of [] \<Rightarrow> [] | l' # _ \<Rightarrow> l'))"
  shows "loop (l # ls) st = loop ls (addLine st (trim l))"
  using assms by (simp add: Let_def)

lemma loop_break:
  assumes "trim l \<noteq> []" and "\<not> bullets (trim l)"
    and "\<not> joinSoftly (trim l) (trim (case ls of [] \<Rightarrow> [] | l' # _ \<Rightarrow> l'))"
  shows "loop (l # ls) st = loop ls (flush (addLine st (trim l)))"
  using assms by (simp add: Let_def)

lemma flush_first:
  "trim l \<noteq> [] \<Longrightarrow> flush (addLine \<lparr>out = [], buf = []\<rparr> (trim l)) = \<lparr>out = [trim l], buf = []\<rparr>"
  by (simp add: flush_def addLine_def trim_trim)

lemma flush_carried:
  "b \<noteq> [] \<Longrightarrow> \<not> isSpace (hd b) \<Longrightarrow> trim l \<noteq> [] \<Longrightarrow>
   flush (addLine \<lparr>out = [], buf = b\<rparr> (trim l)) = \<lparr>out = [b @ 32 # trim l], buf = []\<rparr>"
  by (simp add: flush_def addLine_def trim_glue)

lemma carry:
  "b \<noteq> [] \<Longrightarrow> \<not> isSpace (hd b) \<Longrightarrow> trim l \<noteq> [] \<Longrightarrow> \<not> bullets (trim l) \<Longrightarrow>
   \<exists>p ps. outLines (l # rest) = p # ps \<and>
          out (flush (loop (l # rest) \<lparr>out = [], buf = b\<rparr>)) = (b @ 32 # p) # ps"
proof (induction rest arbitrary: b l)
  case Nil
  have n: "\<not> joinSoftly (trim l) (trim (case [] :: jsstring list of [] \<Rightarrow> [] | l' # _ \<Rightarrow> l'))"
    by (simp add: joinSoftly_stop trim_Nil)
  have "outLines [l] = [trim l]"
    unfolding outLines_def loop_break [OF Nil(3,4) n] flush_first [OF Nil(3)]
    by (simp add: flush_def trim_Nil)
  moreover have "out (flush (loop [l] \<lparr>out = [], buf = b\<rparr>)) = [b @ 32 # trim l]"
    unfolding loop_break [OF Nil(3,4) n] flush_carried [OF Nil(1,2,3)]
    by (simp add: flush_def trim_Nil)
  ultimately show ?case by simp
next
  case (Cons l' rest)
  show ?case
  proof (cases "joinSoftly (trim l) (trim l')")
    case True
    then have j: "joinSoftly (trim l) (trim (case l' # rest of [] \<Rightarrow> [] | x # _ \<Rightarrow> x))" by simp
    have nx: "trim l' \<noteq> []" "\<not> bullets (trim l')" using True by (auto simp: joinSoftly_def)
    have hl: "\<not> isSpace (hd (trim l))" using Cons.prems(3) by (rule hd_trim)
    obtain p ps where a: "outLines (l' # rest) = p # ps"
      and a': "out (flush (loop (l' # rest) \<lparr>out = [], buf = trim l\<rparr>)) = (trim l @ 32 # p) # ps"
      using Cons.IH [OF Cons.prems(3) hl nx] by blast
    obtain q qs where c: "outLines (l' # rest) = q # qs"
      and c': "out (flush (loop (l' # rest) \<lparr>out = [], buf = b @ 32 # trim l\<rparr>))
               = ((b @ 32 # trim l) @ 32 # q) # qs"
      using Cons.IH [of "b @ 32 # trim l" l'] Cons.prems(1,2) nx by auto
    have "outLines (l # l' # rest) = (trim l @ 32 # p) # ps"
      unfolding outLines_def loop_join [OF Cons.prems(3,4) j] using a' by (simp add: addLine_def)
    moreover have "out (flush (loop (l # l' # rest) \<lparr>out = [], buf = b\<rparr>))
                   = (b @ 32 # trim l @ 32 # p) # ps"
      unfolding loop_join [OF Cons.prems(3,4) j] using c' a c Cons.prems(1) by (simp add: addLine_def)
    ultimately show ?thesis by simp
  next
    case False
    then have j: "\<not> joinSoftly (trim l) (trim (case l' # rest of [] \<Rightarrow> [] | x # _ \<Rightarrow> x))" by simp
    have "outLines (l # l' # rest) = trim l # outLines (l' # rest)"
      unfolding outLines_def loop_break [OF Cons.prems(3,4) j] flush_first [OF Cons.prems(3)]
      using outLines_prefix [of "l' # rest" "[trim l]"] by (simp add: outLines_def)
    moreover have "out (flush (loop (l # l' # rest) \<lparr>out = [], buf = b\<rparr>))
                   = (b @ 32 # trim l) # outLines (l' # rest)"
      unfolding loop_break [OF Cons.prems(3,4) j] flush_carried [OF Cons.prems(1,2,3)]
      using outLines_prefix [of "l' # rest" "[b @ 32 # trim l]"] by simp
    ultimately show ?thesis by simp
  qed
qed

text \<open>
  C4, amended: for a line that is not empty and not a bullet line, followed by another
  line, the line is joined by one space with the paragraph that the next line starts
  exactly when the condition of the specification holds and, besides, the line does not
  start with a marker; otherwise the line ends a paragraph of its own.
\<close>

theorem C4_join_rule:
  assumes "trim l \<noteq> []" and "\<not> bullets (trim l)"
  shows "(spec_join (trim l) (trim l') \<and> \<not> spec_startsWithMarker (trim l) \<longrightarrow>
            (\<exists>p ps. outLines (l' # rest) = p # ps \<and>
                    outLines (l # l' # rest) = (trim l @ 32 # p) # ps)) \<and>
         (\<not> (spec_join (trim l) (trim l') \<and> \<not> spec_startsWithMarker (trim l)) \<longrightarrow>
            outLines (l # l' # rest) = trim l # outLines (l' # rest))"
proof (cases "joinSoftly (trim l) (trim l')")
  case True
  then have j: "joinSoftly (trim l) (trim (case l' # rest of [] \<Rightarrow> [] | x # _ \<Rightarrow> x))" by simp
  have nx: "trim l' \<noteq> []" "\<not> bullets (trim l')" using True by (auto simp: joinSoftly_def)
  have hl: "\<not> isSpace (hd (trim l))" using assms(1) by (rule hd_trim)
  obtain p ps where a: "outLines (l' # rest) = p # ps"
    and a': "out (flush (loop (l' # rest) \<lparr>out = [], buf = trim l\<rparr>)) = (trim l @ 32 # p) # ps"
    using carry [OF assms(1) hl nx] by blast
  have "outLines (l # l' # rest) = (trim l @ 32 # p) # ps"
    unfolding outLines_def loop_join [OF assms j] using a' by (simp add: addLine_def)
  then show ?thesis using a True joinSoftly_trim [OF assms(1)] by simp
next
  case False
  then have j: "\<not> joinSoftly (trim l) (trim (case l' # rest of [] \<Rightarrow> [] | x # _ \<Rightarrow> x))" by simp
  have "outLines (l # l' # rest) = trim l # outLines (l' # rest)"
    unfolding outLines_def loop_break [OF assms j] flush_first [OF assms(1)]
    using outLines_prefix [of "l' # rest" "[trim l]"] by (simp add: outLines_def)
  then show ?thesis using False joinSoftly_trim [OF assms(1)] by simp
qed

text \<open>
  C4, as stated: two lines that are no bullet lines are joined whenever the condition of
  the specification holds. It fails for a line that starts with a marker without white
  space after it: the condition holds, and the two lines stay apart.
\<close>

theorem C4_marker_start_counterexample:
  "\<not> bullets (js ''-foo'') \<and> \<not> bullets (js ''bar'') \<and>
   spec_join (js ''-foo'') (js ''bar'') \<and>
   outLines [js ''-foo'', js ''bar''] = [js ''-foo'', js ''bar''] \<and>
   outLines [js ''-foo'', js ''bar''] \<noteq> [js ''-foo bar''] \<and>
   reconstructResumeText id (js ''-foo\<newline>bar'') = js ''-foo\<newline>bar''"
  by code_simp

theorem C4_join_rule_witness:
  "trim (js ''Built scalable'') \<noteq> [] \<and> \<not> bullets (trim (js ''Built scalable'')) \<and>
   spec_join (trim (js ''Built scalable'')) (trim (js ''systems for'')) \<and>
   \<not> spec_startsWithMarker (trim (js ''Built scalable'')) \<and>
   outLines [js ''Built scalable'', js ''systems for''] = [js ''Built scalable systems for''] \<and>
   trim (js ''Skills:'') \<noteq> [] \<and> \<not> bullets (trim (js ''Skills:'')) \<and>
   \<not> spec_join (trim (js ''Skills:'')) (trim (js ''Python'')) \<and>
   outLines [js ''Skills:'', js ''Python''] = [js ''Skills:'', js ''Python'']"
proof -
  have a1: "trim (js ''Built scalable'') \<noteq> []" by code_simp
  have a2: "\<not> bullets (trim (js ''Built scalable''))" by code_simp
  have a3: "spec_join (trim (js ''Built scalable'')) (trim (js ''systems for'')) \<and>
            \<not> spec_startsWithMarker (trim (js ''Built scalable''))" by code_simp
  have a4: "outLines [js ''systems for''] = [js ''systems for'']" by code_simp
  have a5: "trim (js ''Built scalable'') @ 32 # js ''systems for'' = js ''Built scalable systems for''"
    by code_simp
  have a: "outLines [js ''Built scalable'', js ''systems for''] = [js ''Built scalable systems for'']"
    using C4_join_rule [OF a1 a2, of "js ''systems for''" "[]"] a3 a4 a5 by auto
  have b1: "trim (js ''Skills:'') \<noteq> []" by code_simp
  have b2: "\<not> bullets (trim (js ''Skills:''))" by code_simp
  have b3: "\<not> spec_join (trim (js ''Skills:'')) (trim (js ''Python''))" by code_simp
  have b4: "outLines [js ''Python''] = [js ''Python'']" by code_simp
  have b5: "trim (js ''Skills:'') = js ''Skills:''" by code_simp
  have b: "outLines [js ''Skills:'', js ''Python''] = [js ''Skills:'', js ''Python'']"
    using C4_join_rule [OF b1 b2, of "js ''Python''" "[]"] b3 b4 b5 by auto
  show ?thesis using a1 a2 a3 a b1 b2 b3 b by blast
qed

section \<open>Text in clean form is a fixed point\<close>

lemma cleanText_hd: "cleanText (l # ls) \<Longrightarrow> cleanLine l"
  by (cases ls) simp_all

lemma cleanText_all: "cleanText ls \<Longrightarrow> \<forall>l \<in> set ls. cleanLine l"
  by (induction ls rule: cleanText.induct) auto

lemma set_join: "set (join ls) \<subseteq> insert 10 (\<Union> (set ` set ls))"
  by (induction ls rule: join.induct) auto

lemma stripCR_clean: "cleanText ls \<Longrightarrow> stripCR (join ls) = join ls"
proof -
  assume "cleanText ls"
  then have "13 \<notin> set (join ls)"
    using cleanText_all [of ls] set_join [of ls] by (auto simp: cleanLine_def)
  then show ?thesis by (auto simp: stripCR_def filter_id_conv)
qed

lemma first_newline:
  "10 \<notin> set x \<Longrightarrow> 10 \<notin> set y \<Longrightarrow> x @ 10 # u = y @ 10 # v \<Longrightarrow> x = y \<and> u = v"
proof (induction x arbitrary: y)
  case Nil
  then show ?case by (cases y) auto
next
  case (Cons c x)
  then show ?case by (cases y) auto
qed

lemma clean_no_soft:
  "cleanText ls \<Longrightarrow> join ls = a @ c # 45 # 10 # d # b \<Longrightarrow> isAlpha c \<Longrightarrow> isAlpha d \<Longrightarrow> False"
proof (induction ls arbitrary: a rule: cleanText.induct)
  case 1
  then show ?case by simp
next
  case (2 l)
  then have "10 \<in> set l" by simp
  then show ?case using 2(1) by (simp add: cleanLine_def tidyLine_def)
next
  case (3 l l' ls)
  have nl: "10 \<notin> set l" using 3(2) by (simp add: cleanLine_def tidyLine_def)
  have l': "l' \<noteq> []" using 3(2) cleanText_hd [of l' ls] by (auto simp: cleanLine_def tidyLine_def)
  have j: "l @ 10 # join (l' # ls) = a @ c # 45 # 10 # d # b" using 3(3) by simp
  show ?case
  proof (cases "10 \<in> set a")
    case True
    then obtain a1 a2 where a: "a = a1 @ 10 # a2" "10 \<notin> set a1"
      by (meson split_list_first)
    have "l @ 10 # join (l' # ls) = a1 @ 10 # (a2 @ c # 45 # 10 # d # b)"
      using j a(1) by simp
    then have "join (l' # ls) = a2 @ c # 45 # 10 # d # b"
      using first_newline [OF nl a(2)] by blast
    then show ?thesis using 3(1) [of a2] 3(2,4,5) by simp
  next
    case False
    have c: "c \<noteq> 10" using 3(4) alpha_not_break by blast
    have "l @ 10 # join (l' # ls) = (a @ [c, 45]) @ 10 # (d # b)" using j by simp
    moreover have "10 \<notin> set (a @ [c, 45])" using False c by simp
    ultimately have e: "l = a @ [c, 45]" "join (l' # ls) = d # b"
      using first_newline [OF nl] by blast+
    have "hd (join (l' # ls)) = hd l'" using l' by (simp add: hd_join del: join.simps)
    then have "hd l' = d" using e(2) by simp
    then have "softBreak l l'" using e(1) l' 3(4,5) by (cases l') (auto simp: softBreak_def)
    then show ?thesis using 3(2) by simp
  qed
qed

lemma dehyphenate_clean: "cleanText ls \<Longrightarrow> dehyphenate (join ls) = join ls"
  using clean_no_soft by (intro dehyphenate_same) blast

lemma trimEnd_clean: "cleanLine l \<Longrightarrow> trimEnd l = l"
proof -
  assume "cleanLine l"
  then have "dropWhile isSpace (rev l) = rev l"
    by (simp add: cleanLine_def tidyLine_def dropWhile_eq_self_iff hd_rev)
  then show ?thesis by (simp add: trimEnd_def)
qed

lemma splitLines_clean:
  assumes "cleanText ls" and "ls \<noteq> []"
  shows "splitLines (join ls) = ls"
proof -
  have c: "\<forall>l \<in> set ls. cleanLine l" using assms(1) by (rule cleanText_all)
  then have "split (join ls) = ls"
    using assms(2) by (intro split_join) (auto simp: cleanLine_def tidyLine_def)
  then show ?thesis using c by (simp add: splitLines_def stripCR_clean [OF assms(1)] trimEnd_clean map_idI)
qed

lemma loop_clean: "cleanText ls \<Longrightarrow> loop ls \<lparr>out = o1, buf = []\<rparr> = \<lparr>out = o1 @ ls, buf = []\<rparr>"
proof (induction ls arbitrary: o1 rule: cleanText.induct)
  case 1
  then show ?case by simp
next
  case (2 l)
  then have t: "trim l = l" "l \<noteq> []" by (simp_all add: cleanLine_def trim_tidy tidyLine_def)
  show ?case
    using t by (simp add: Let_def flush_def addLine_def trim_Nil joinSoftly_stop)
next
  case (3 l l' ls)
  then have t: "trim l = l" "l \<noteq> []" by (simp_all add: cleanLine_def trim_tidy tidyLine_def)
  have "cleanLine l'" using 3(2) cleanText_hd [of l' ls] by simp
  then have t': "trim l' = l'" by (simp add: cleanLine_def trim_tidy)
  have j: "bullets l \<or> \<not> joinSoftly l l'" using 3(2) by simp
  have r: "\<And>o2. loop (l' # ls) \<lparr>out = o2, buf = []\<rparr> = \<lparr>out = o2 @ l' # ls, buf = []\<rparr>"
    using 3(1) 3(2) by simp
  show ?case
  proof (cases "bullets l")
    case True
    have "loop (l # l' # ls) \<lparr>out = o1, buf = []\<rparr> = loop (l' # ls) \<lparr>out = o1 @ [l], buf = []\<rparr>"
      using True t by (simp add: Let_def flush_def trim_Nil)
    then show ?thesis using r by simp
  next
    case False
    then have n: "\<not> joinSoftly (trim l) (trim (case l' # ls of [] \<Rightarrow> [] | x # _ \<Rightarrow> x))"
      using j t t' by simp
    have "loop (l # l' # ls) \<lparr>out = o1, buf = []\<rparr> = loop (l' # ls) \<lparr>out = o1 @ [l], buf = []\<rparr>"
      using False t loop_break [OF _ _ n, of "\<lparr>out = o1, buf = []\<rparr>"]
      by (simp add: flush_def addLine_def)
    then show ?thesis using r by simp
  qed
qed

lemma outLines_clean: "cleanText ls \<Longrightarrow> outLines ls = ls"
  using loop_clean [of ls "[]"] by (simp add: outLines_def flush_def trim_Nil)

text \<open>
  C2, amended: a text in clean form that NFKC leaves as it is, is a fixed point of the
  function, so running the function twice on it gives what running it once gives.
\<close>

theorem C2_clean_fixed_point:
  assumes "cleanText ls" and "nfkc (join ls) = join ls"
  shows "reconstructResumeText nfkc (join ls) = join ls \<and>
         reconstructResumeText nfkc (reconstructResumeText nfkc (join ls))
           = reconstructResumeText nfkc (join ls)"
proof -
  have "reconstructResumeText nfkc (join ls) = join ls"
  proof (cases "ls = []")
    case True
    then show ?thesis using assms(2) reconstruct_fixed [of nfkc "[]"] run_empty by simp
  next
    case False
    show ?thesis
      unfolding reconstruct_join assms(2) dehyphenate_clean [OF assms(1)]
        splitLines_clean [OF assms(1) False] outLines_clean [OF assms(1)] ..
  qed
  then show ?thesis by simp
qed

text \<open>
  C2, as stated: the function is idempotent on a text without soft hyphens and without
  stray wraps, and on its own output. Two one-line paragraphs with a blank line between
  them are such a text; the first run drops the blank line and the second run joins the
  two paragraphs.
\<close>

theorem C2_blank_line_counterexample:
  "dehyphenate (js ''foo\<newline>\<newline>bar'') = js ''foo\<newline>\<newline>bar'' \<and>
   reconstructResumeText id (js ''foo\<newline>\<newline>bar'') = js ''foo\<newline>bar'' \<and>
   reconstructResumeText id (reconstructResumeText id (js ''foo\<newline>\<newline>bar'')) = js ''foo bar'' \<and>
   reconstructResumeText id (reconstructResumeText id (js ''foo\<newline>\<newline>bar''))
     \<noteq> reconstructResumeText id (js ''foo\<newline>\<newline>bar'')"
  by code_simp

theorem C2_clean_fixed_point_witness:
  "cleanText [js ''Summary:'', js ''Built scalable systems.'', js ''- Led team of 5'', js ''Contact''] \<and>
   id (join [js ''Summary:'', js ''Built scalable systems.'', js ''- Led team of 5'', js ''Contact''])
     = join [js ''Summary:'', js ''Built scalable systems.'', js ''- Led team of 5'', js ''Contact''] \<and>
   reconstructResumeText id
     (join [js ''Summary:'', js ''Built scalable systems.'', js ''- Led team of 5'', js ''Contact''])
     = join [js ''Summary:'', js ''Built scalable systems.'', js ''- Led team of 5'', js ''Contact''] \<and>
   reconstructResumeText id (reconstructResumeText id
     (join [js ''Summary:'', js ''Built scalable systems.'', js ''- Led team of 5'', js ''Contact'']))
     = reconstructResumeText id
         (join [js ''Summary:'', js ''Built scalable systems.'', js ''- Led team of 5'', js ''Contact''])"
proof -
  have h1: "cleanText [js ''Summary:'', js ''Built scalable systems.'', js ''- Led team of 5'', js ''Contact'']"
    by code_simp
  have h2: "id (join [js ''Summary:'', js ''Built scalable systems.'', js ''- Led team of 5'', js ''Contact''])
     = join [js ''Summary:'', js ''Built scalable systems.'', js ''- Led team of 5'', js ''Contact'']"
    by simp
  show ?thesis using h1 h2 C2_clean_fixed_point [OF h1, of id] by blast
qed

end
